theory Spec2Isabelle
  imports Main "HOL-Library.Word" "HOL-Library.List_Lexorder"
begin

section \<open>The Article Word Picker of ToonVocab (src/App.tsx, ArticlePickerView)\<close>

subsection \<open>Strings\<close>

text \<open>
  A JavaScript string is a sequence of UTF-16 code units. The regular expressions of
  the picker carry no \<open>u\<close> flag, so they work on code units as well.
\<close>

type_synonym jschar = "16 word"
type_synonym jsstring = "jschar list"

text \<open>An ASCII literal as a JavaScript string.\<close>

definition js :: "string \<Rightarrow> jsstring" where
  "js cs = map (\<lambda>c. of_nat (of_char c)) cs"

text \<open>
  The class \<open>\s\<close> of a JavaScript regular expression, which is also what
  \<open>String.prototype.trim\<close> strips: WhiteSpace and LineTerminator of ECMAScript
  (TAB, LF, VT, FF, CR, SP, NBSP, U+1680, U+2000 to U+200A, LS, PS, U+202F, U+205F,
  U+3000, U+FEFF).
\<close>

definition isSpace :: "jschar \<Rightarrow> bool" where
  "isSpace c \<longleftrightarrow>
     (0x09 \<le> c \<and> c \<le> 0x0D) \<or> c = 0x20 \<or> c = 0xA0 \<or> c = 0x1680 \<or>
     (0x2000 \<le> c \<and> c \<le> 0x200A) \<or> c = 0x2028 \<or> c = 0x2029 \<or> c = 0x202F \<or>
     c = 0x205F \<or> c = 0x3000 \<or> c = 0xFEFF"

text \<open>
  The punctuation class of the split expression in \<open>tokenize\<close>, as the file has
  it: \<^verbatim>\<open>. , ! ? ; : ' " ( ) [ ] { } - \<close> and the code units U+201A, U+00C4, U+00EE
  and U+00EC.
\<close>

definition isPunct :: "jschar \<Rightarrow> bool" where
  "isPunct c \<longleftrightarrow>
     c = 0x2E \<or> c = 0x2C \<or> c = 0x21 \<or> c = 0x3F \<or> c = 0x3B \<or> c = 0x3A \<or>
     c = 0x27 \<or> c = 0x22 \<or> c = 0x28 \<or> c = 0x29 \<or> c = 0x5B \<or> c = 0x5D \<or>
     c = 0x7B \<or> c = 0x7D \<or> c = 0x201A \<or> c = 0x00C4 \<or> c = 0x00EE \<or>
     c = 0x00EC \<or> c = 0x2D"

text \<open>The class \<open>[a-zA-Z]\<close>.\<close>

definition isAsciiLetter :: "jschar \<Rightarrow> bool" where
  "isAsciiLetter c \<longleftrightarrow> (0x41 \<le> c \<and> c \<le> 0x5A) \<or> (0x61 \<le> c \<and> c \<le> 0x7A)"

text \<open>\<open>String.prototype.trim\<close>.\<close>

definition trim :: "jsstring \<Rightarrow> jsstring" where
  "trim str = rev (dropWhile isSpace (rev (dropWhile isSpace str)))"

text \<open>\<open>Array.prototype.join\<close> on strings.\<close>

fun join :: "jsstring \<Rightarrow> jsstring list \<Rightarrow> jsstring" where
  "join sep [] = []"
| "join sep [x] = x"
| "join sep (x # y # ys) = x @ sep @ join sep (y # ys)"

subsection \<open>Tokenizer\<close>

text \<open>
  \<^verbatim>\<open>text.split(/(\n|\s+|[.,!?;:'"()\[\]{}...\-]+)/g).filter(Boolean)\<close>

  \<open>matchSeparator\<close> is the match of the split expression anchored at the head of the
  input: the first alternative that matches wins, \<open>+\<close> is greedy, and the whole
  expression is one capture group. It gives the matched text and the rest of the
  input. No alternative matches the empty string.
\<close>

fun matchSeparator :: "jsstring \<Rightarrow> (jsstring \<times> jsstring) option" where
  "matchSeparator [] = None"
| "matchSeparator (c # cs) =
     (if c = 0x0A then Some ([c], cs)
      else if isSpace c then Some (c # takeWhile isSpace cs, dropWhile isSpace cs)
      else if isPunct c then Some (c # takeWhile isPunct cs, dropWhile isPunct cs)
      else None)"

lemma matchSeparator_append:
  "matchSeparator str = Some (m, rest) \<Longrightarrow> m @ rest = str"
  by (cases str) (auto split: if_splits)

lemma matchSeparator_shorter:
  "matchSeparator (c # cs) = Some (m, rest) \<Longrightarrow> length rest < Suc (length cs)"
  by (auto split: if_splits simp: less_Suc_eq_le length_dropWhile_le)

text \<open>
  The loop of \<open>RegExp.prototype[Symbol.split]\<close>: \<open>pending\<close> is the text between
  the end \<open>p\<close> of the last separator and the position \<open>q\<close> that is tried next. Where
  the expression does not match at \<open>q\<close>, \<open>q\<close> moves on by one code unit; where it
  matches, the pending text and the captured separator are emitted and \<open>p\<close> and
  \<open>q\<close> move to the end of the match. At the end of the input the pending text is
  emitted. On the empty string the result is the one empty string, as the
  expression does not match it. (The limit of \<open>2^32 - 1\<close> pieces of \<open>split\<close> is
  left out: a string has fewer code units than half of that in every engine.)
\<close>

function splitLoop :: "jsstring \<Rightarrow> jsstring \<Rightarrow> jsstring list" where
  "splitLoop pending [] = [pending]"
| "splitLoop pending (c # cs) =
     (case matchSeparator (c # cs) of
        None \<Rightarrow> splitLoop (pending @ [c]) cs
      | Some (m, rest) \<Rightarrow> pending # m # splitLoop [] rest)"
  by pat_completeness auto
termination
proof (relation "measure (\<lambda>(pending, str). length str)")
  show "wf (measure (\<lambda>(pending, str). length str))"
    by simp
next
  fix pending :: jsstring and c cs
  show "((pending @ [c], cs), (pending, c # cs)) \<in> measure (\<lambda>(pending, str). length str)"
    by simp
next
  fix pending :: jsstring and c cs x2 m rest
  assume "matchSeparator (c # cs) = Some x2" "(m, rest) = x2"
  then have "matchSeparator (c # cs) = Some (m, rest)"
    by simp
  then have "length rest < Suc (length cs)"
    by (rule matchSeparator_shorter)
  then show "(([], rest), (pending, c # cs)) \<in> measure (\<lambda>(pending, str). length str)"
    by simp
qed

definition regexp_split :: "jsstring \<Rightarrow> jsstring list" where
  "regexp_split str = splitLoop [] str"

record tokenInfo =
  tokenText :: jsstring
  index :: nat
  isWord :: bool
  isNewline :: bool

definition tokenize :: "jsstring \<Rightarrow> tokenInfo list" where
  "tokenize str =
     (let rawTokens = filter (\<lambda>token. token \<noteq> []) (regexp_split str)
      in map (\<lambda>(i, token).
               \<lparr>tokenText = token, index = i,
                isWord = (\<exists>c \<in> set token. isAsciiLetter c),
                isNewline = (token = [0x0A])\<rparr>)
             (enumerate 0 rawTokens))"

subsection \<open>Word normalisation\<close>

text \<open>
  \<^verbatim>\<open>word.toLowerCase().replace(/[^a-zA-Z]/g, '')\<close>

  \<open>String.prototype.toLowerCase\<close> follows the Unicode case mapping, and its result is
  read only through the \<open>replace\<close>, which keeps the ASCII letters and nothing else.
  The model gives the mapping wherever an ASCII letter comes out of it: \<open>A\<close> to
  \<open>Z\<close> go to \<open>a\<close> to \<open>z\<close>, U+0130 goes to \<open>i\<close> followed by U+0307, and
  U+212A (the Kelvin sign) goes to \<open>k\<close>. Every other code unit is mapped by Unicode
  to code units outside \<open>[a-zA-Z]\<close>, which the \<open>replace\<close> removes; the model
  leaves it as it is.
\<close>

definition toLowerCase :: "jsstring \<Rightarrow> jsstring" where
  "toLowerCase str =
     concat (map (\<lambda>c. if 0x41 \<le> c \<and> c \<le> 0x5A then [c + 0x20]
                      else if c = 0x0130 then [0x69, 0x0307]
                      else if c = 0x212A then [0x6B]
                      else [c]) str)"

definition normalizeWord :: "jsstring \<Rightarrow> jsstring" where
  "normalizeWord w = filter isAsciiLetter (toLowerCase w)"

subsection \<open>State of the component\<close>

datatype mode = Input | Picking

record wordMeaning =
  word :: jsstring
  phonetic :: "jsstring option"
  definitions :: "jsstring list"
  loading :: bool
  error :: "jsstring option"

text \<open>
  The \<open>useState\<close> cells of \<open>ArticlePickerView\<close>. \<open>selectedIndices\<close> is a
  JavaScript \<open>Set\<close>: a list in insertion order, read and written through
  \<open>set_add\<close> and \<open>set_delete\<close> only. \<open>phrases\<close> is an array of arrays of token
  indices, \<open>wordMeanings\<close> a \<open>Map\<close>.

  Every handler reads the state of the render it was created in. A click handler runs
  once per event and the component is rendered again after the event, so a click
  handler is a function from the state before the event to the state after it.
  \<open>fetchMeaning\<close> is called from an effect, several times in one render; see below.
\<close>

record picker =
  articleText :: jsstring
  mode :: mode
  tokens :: "tokenInfo list"
  selectedIndices :: "nat list"
  phrases :: "nat list list"
  hoveredConnector :: "nat option"
  wordMeanings :: "jsstring \<rightharpoonup> wordMeaning"

definition initial :: picker where
  "initial = \<lparr>articleText = [], mode = Input, tokens = [], selectedIndices = [],
     phrases = [], hoveredConnector = None, wordMeanings = Map.empty\<rparr>"

definition set_add :: "nat \<Rightarrow> nat list \<Rightarrow> nat list" where
  "set_add x xs = (if x \<in> set xs then xs else xs @ [x])"

definition set_delete :: "nat \<Rightarrow> nat list \<Rightarrow> nat list" where
  "set_delete x xs = removeAll x xs"

text \<open>\<open>[...new Set(xs)]\<close>: the first occurrence of every element, in order.\<close>

definition uniq :: "'a list \<Rightarrow> 'a list" where
  "uniq xs = rev (remdups (rev xs))"

subsection \<open>Phrases\<close>

text \<open>
  A phrase is an array, that is an object: \<open>find\<close> gives a reference to it and
  \<open>!==\<close> compares references, not contents. Every array in \<open>phrases\<close> is a fresh
  one (\<open>handleMerge\<close> builds it with a spread and \<open>sort\<close>, \<open>filter\<close> keeps
  references, nothing else writes \<open>phrases\<close>), so no object is in \<open>phrases\<close> twice
  and the position of an entry stands for its reference: a phrase object is the pair
  of its position and its elements.
\<close>

type_synonym phrase_obj = "nat \<times> nat list"

definition getPhraseForIndex :: "nat list list \<Rightarrow> nat \<Rightarrow> phrase_obj option" where
  "getPhraseForIndex ps idx = find (\<lambda>(r, phrase). idx \<in> set phrase) (enumerate 0 ps)"

text \<open>\<^verbatim>\<open>phraseIndices.map(i => tokens[i]?.text || '').join(' ')\<close>\<close>

definition getPhraseText :: "tokenInfo list \<Rightarrow> nat list \<Rightarrow> jsstring" where
  "getPhraseText toks phraseIndices =
     join [0x20] (map (\<lambda>i. if i < length toks then tokenText (toks ! i) else []) phraseIndices)"

text \<open>
  The loop runs over \<open>i = 0, ..., wordTokens.length - 2\<close>; it has no round when there
  are fewer than two word tokens.
\<close>

definition findAdjacentPairs :: "picker \<Rightarrow> (nat \<times> nat) list" where
  "findAdjacentPairs s =
     (let wordTokens = filter isWord (tokens s)
      in concat (map (\<lambda>i.
           let current = wordTokens ! i; next = wordTokens ! (i + 1)
           in if index current \<in> set (selectedIndices s) \<and> index next \<in> set (selectedIndices s)
              then (let currentPhrase = getPhraseForIndex (phrases s) (index current);
                        nextPhrase = getPhraseForIndex (phrases s) (index next)
                    in if currentPhrase = None \<or> nextPhrase = None \<or>
                          map_option fst currentPhrase \<noteq> map_option fst nextPhrase
                       then [(index current, index next)] else [])
              else [])
         [0..<length wordTokens - 1]))"

definition handleMerge :: "picker \<Rightarrow> nat \<Rightarrow> nat \<Rightarrow> picker" where
  "handleMerge s index1 index2 =
     (let phrase1 = getPhraseForIndex (phrases s) index1;
          phrase2 = getPhraseForIndex (phrases s) index2;
          newPhrases = map snd (filter (\<lambda>p. Some (fst p) \<noteq> map_option fst phrase1 \<and>
                                             Some (fst p) \<noteq> map_option fst phrase2)
                                  (enumerate 0 (phrases s)));
          newPhrase = (case (phrase1, phrase2) of
                         (Some p1, Some p2) \<Rightarrow> sort (snd p1 @ snd p2)
                       | (Some p1, None) \<Rightarrow> sort (snd p1 @ [index2])
                       | (None, Some p2) \<Rightarrow> sort (index1 # snd p2)
                       | (None, None) \<Rightarrow> sort [index1, index2])
      in s\<lparr>phrases := newPhrases @ [newPhrase], hoveredConnector := None\<rparr>)"

subsection \<open>Dictionary lookups\<close>

text \<open>
  \<open>fetchMeaning\<close> is an \<open>async\<close> function: a call runs up to the \<open>await fetch\<close>
  and returns; the rest runs when the response is there. \<open>fetchMeaning\<close> below is
  the first part, \<open>fetchSettled\<close> the second part, on the response.

  The guard of \<open>fetchMeaning\<close> reads \<open>wordMeanings\<close>, a constant of the render that
  created the function, which \<open>setWordMeanings\<close> does not change. The update is
  queued as a function of the pending state, \<open>prev => new Map(prev).set(...)\<close>. So
  a call has two states: \<open>render\<close>, the state of its render, and \<open>prev\<close>, the
  pending state, which is \<open>render\<close> for the first call made in a render and the
  result of the call before it for every later one. The call gives the new pending
  state and the request it issues, if any (the normalized word, which the URL ends
  with).
\<close>

definition fetchMeaning :: "picker \<Rightarrow> jsstring \<Rightarrow> picker \<Rightarrow> picker \<times> jsstring option" where
  "fetchMeaning render w prev =
     (let normalized = normalizeWord w
      in if normalized = [] \<or> wordMeanings render normalized \<noteq> None then (prev, None)
         else (prev\<lparr>wordMeanings := (wordMeanings prev)(normalized \<mapsto>
                   \<lparr>word = normalized, phonetic = None, definitions = [],
                    loading = True, error = None\<rparr>)\<rparr>,
               Some normalized))"

text \<open>
  What the handler reads of the first entry of the response: \<open>phonetic\<close>, the
  \<open>text\<close> of each of \<open>phonetics\<close>, and per meaning the \<open>definition\<close> of each of
  its \<open>definitions\<close>.
\<close>

record dictEntry =
  entryPhonetic :: "jsstring option"
  entryPhonetics :: "jsstring option list"
  entryMeanings :: "jsstring option list list"

datatype response = Rejected | NotOk | Ok "dictEntry list"

definition truthy :: "jsstring option \<Rightarrow> bool" where
  "truthy v = (v \<noteq> None \<and> v \<noteq> Some [])"

definition fetchSettled :: "picker \<Rightarrow> jsstring \<Rightarrow> response \<Rightarrow> picker" where
  "fetchSettled s normalized resp =
     (case resp of
        Ok data \<Rightarrow>
          (let meanings = (case data of [] \<Rightarrow> [] | e # _ \<Rightarrow> entryMeanings e);
               ph = (case data of [] \<Rightarrow> None
                     | e # _ \<Rightarrow> if truthy (entryPhonetic e) then entryPhonetic e
                                else (case entryPhonetics e of [] \<Rightarrow> None | t # _ \<Rightarrow> t));
               defs = concat (map (\<lambda>m. map the (filter truthy (take 2 m))) meanings)
           in s\<lparr>wordMeanings := (wordMeanings s)(normalized \<mapsto>
                  \<lparr>word = normalized, phonetic = ph, definitions = take 3 defs,
                   loading = False, error = None\<rparr>)\<rparr>)
      | _ \<Rightarrow>
          s\<lparr>wordMeanings := (wordMeanings s)(normalized \<mapsto>
               \<lparr>word = normalized, phonetic = None, definitions = [],
                loading = False, error = Some (js ''No definition found'')\<rparr>)\<rparr>)"

subsection \<open>Handlers\<close>

text \<open>The second component is the \<open>alert\<close> that is shown, if any.\<close>

definition handleStartPicking :: "picker \<Rightarrow> picker \<times> jsstring option" where
  "handleStartPicking s =
     (if trim (articleText s) = [] then (s, Some (js ''Please paste an article first!''))
      else (s\<lparr>tokens := tokenize (articleText s), selectedIndices := [], phrases := [],
              wordMeanings := Map.empty, mode := Picking\<rparr>, None))"

text \<open>
  \<open>tokens[tokenIndex]\<close> is \<open>undefined\<close> out of range. Within the updater,
  \<open>phrase.forEach(i => newSet.delete(i))\<close> and the \<open>filter\<close> on \<open>phrases\<close>.
\<close>

definition handleWordClick :: "picker \<Rightarrow> nat \<Rightarrow> picker" where
  "handleWordClick s tokenIndex =
     (if \<not> tokenIndex < length (tokens s) then s
      else if \<not> isWord (tokens s ! tokenIndex) then s
      else (case getPhraseForIndex (phrases s) tokenIndex of
              Some phrase \<Rightarrow>
                s\<lparr>selectedIndices := fold set_delete (snd phrase) (selectedIndices s),
                  phrases := map snd (filter (\<lambda>p. fst p \<noteq> fst phrase)
                                        (enumerate 0 (phrases s)))\<rparr>
            | None \<Rightarrow>
                if tokenIndex \<in> set (selectedIndices s)
                then s\<lparr>selectedIndices := set_delete tokenIndex (selectedIndices s)\<rparr>
                else s\<lparr>selectedIndices := set_add tokenIndex (selectedIndices s)\<rparr>))"

definition handleReset :: "picker \<Rightarrow> picker" where
  "handleReset s = s\<lparr>mode := Input, tokens := [], selectedIndices := [], phrases := [],
     wordMeanings := Map.empty\<rparr>"

text \<open>
  \<open>tokens[idx].text\<close> throws a \<open>TypeError\<close> where \<open>tokens[idx]\<close> is
  \<open>undefined\<close>, and the handler ends there without a document.
\<close>

datatype js_error = TypeError

record exportData =
  exportedAt :: jsstring
  words :: "jsstring list"
  phraseTexts :: "jsstring list"

definition pushSingleWord ::
  "picker \<Rightarrow> nat \<Rightarrow> js_error + jsstring list \<Rightarrow> js_error + jsstring list" where
  "pushSingleWord s idx acc =
     (case acc of
        Inl e \<Rightarrow> Inl e
      | Inr singleWords \<Rightarrow>
          if getPhraseForIndex (phrases s) idx = None
          then (if idx < length (tokens s)
                then Inr (singleWords @ [normalizeWord (tokenText (tokens s ! idx))])
                else Inl TypeError)
          else Inr singleWords)"

text \<open>
  \<open>now\<close> is \<open>new Date().toISOString()\<close>. The result is \<open>exportData\<close>, the object
  that is serialised and downloaded.
\<close>

definition handleExportJson :: "picker \<Rightarrow> jsstring \<Rightarrow> js_error + exportData" where
  "handleExportJson s now =
     (case fold (pushSingleWord s) (selectedIndices s) (Inr []) of
        Inl e \<Rightarrow> Inl e
      | Inr singleWords \<Rightarrow>
          Inr \<lparr>exportedAt = now,
               words = sort (uniq singleWords),
               phraseTexts = map (getPhraseText (tokens s)) (phrases s)\<rparr>)"

subsection \<open>What is rendered and clicked\<close>

text \<open>\<^verbatim>\<open>const adjacentPairs = mode === 'picking' ? findAdjacentPairs() : [];\<close>\<close>

definition adjacentPairs :: "picker \<Rightarrow> (nat \<times> nat) list" where
  "adjacentPairs s = (if mode s = Picking then findAdjacentPairs s else [])"

text \<open>
  The connector button. It is rendered in picking mode at the token at position
  \<open>i\<close> where this token is neither a newline nor a word, some selection exists and
  \<open>i\<close> lies strictly between the two positions of an adjacent pair; its click
  handler merges the first such pair.
\<close>

definition connectorPair :: "picker \<Rightarrow> nat \<Rightarrow> (nat \<times> nat) option" where
  "connectorPair s i =
     (if mode s = Picking \<and> i < length (tokens s) \<and> \<not> isNewline (tokens s ! i) \<and>
         \<not> isWord (tokens s ! i) \<and> selectedIndices s \<noteq> []
      then find (\<lambda>(i1, i2). i1 < i \<and> i < i2) (adjacentPairs s)
      else None)"

definition connectorClick :: "picker \<Rightarrow> nat \<Rightarrow> picker" where
  "connectorClick s i =
     (case connectorPair s i of None \<Rightarrow> s | Some (i1, i2) \<Rightarrow> handleMerge s i1 i2)"

text \<open>
  \<open>getSelectedWords\<close>, the \<open>selectedItems\<close> of the floating panel. Its loop is the
  loop of \<open>handleExportJson\<close>.
\<close>

definition getSelectedWords :: "picker \<Rightarrow> js_error + jsstring list" where
  "getSelectedWords s =
     (case fold (pushSingleWord s) (selectedIndices s) (Inr []) of
        Inl e \<Rightarrow> Inl e
      | Inr ws \<Rightarrow> Inr (uniq ws))"

text \<open>
  The effect of the panel, which is where \<open>fetchMeaning\<close> is called:
  \<^verbatim>\<open>selectedItems.forEach(word => { if (!meanings.has(word)) onFetchMeaning(word); })\<close>
  with \<open>meanings\<close> the \<open>wordMeanings\<close> and \<open>onFetchMeaning\<close> the \<open>fetchMeaning\<close>
  of one render of the picker. It gives the pending state and the requests issued.
\<close>

definition fetchNewMeanings :: "picker \<Rightarrow> jsstring list \<Rightarrow> picker \<times> jsstring list" where
  "fetchNewMeanings render selectedItems =
     fold (\<lambda>w (prev, requests).
             if wordMeanings render w = None
             then (case fetchMeaning render w prev of
                     (prev', None) \<Rightarrow> (prev', requests)
                   | (prev', Some request) \<Rightarrow> (prev', requests @ [request]))
             else (prev, requests))
          selectedItems (render, [])"

text \<open>
  The events of the picking view: a click on the word at a position, a click on the
  connector at a position, a click on Reset. In input mode none of them is rendered.
\<close>

datatype ui_event = WordClick nat | ConnectorClick nat | ResetClick

fun ui_step :: "picker \<Rightarrow> ui_event \<Rightarrow> picker" where
  "ui_step s (WordClick i) = (if mode s = Picking then handleWordClick s i else s)"
| "ui_step s (ConnectorClick i) = connectorClick s i"
| "ui_step s ResetClick = (if mode s = Picking then handleReset s else s)"

text \<open>The handlers called directly, with any arguments.\<close>

datatype operation = Toggle nat | Merge nat nat | Reset

fun apply_operation :: "picker \<Rightarrow> operation \<Rightarrow> picker" where
  "apply_operation s (Toggle i) = handleWordClick s i"
| "apply_operation s (Merge i1 i2) = handleMerge s i1 i2"
| "apply_operation s Reset = handleReset s"

text \<open>The state after Start Picking on a pasted text, from the initial state.\<close>

definition startPicking :: "jsstring \<Rightarrow> picker" where
  "startPicking str = fst (handleStartPicking (initial\<lparr>articleText := str\<rparr>))"

subsection \<open>Predicates of the specification\<close>

text \<open>No token position belongs to two different phrases.\<close>

fun disjoint_phrases :: "nat list list \<Rightarrow> bool" where
  "disjoint_phrases [] = True"
| "disjoint_phrases (p # ps) = ((\<forall>q \<in> set ps. set p \<inter> set q = {}) \<and> disjoint_phrases ps)"

text \<open>Every token carries its position, as \<open>tokenize\<close> sets it.\<close>

definition indexed :: "tokenInfo list \<Rightarrow> bool" where
  "indexed toks = (map index toks = [0..<length toks])"

text \<open>
  The positions \<open>a\<close> and \<open>b\<close> hold word tokens that follow one another in the
  subsequence of word tokens: no word token lies between them.
\<close>

definition consecutive_words :: "tokenInfo list \<Rightarrow> nat \<Rightarrow> nat \<Rightarrow> bool" where
  "consecutive_words toks a b =
     (a < b \<and> b < length toks \<and> isWord (toks ! a) \<and> isWord (toks ! b) \<and>
      (\<forall>k \<in> {a<..<b}. \<not> isWord (toks ! k)))"

text \<open>
  What holds of the state of every render: tokens carry their positions, phrases are
  disjoint, phrase members are selected, and what is selected is a word token.
\<close>

definition wellformed :: "picker \<Rightarrow> bool" where
  "wellformed s \<longleftrightarrow>
     indexed (tokens s) \<and> disjoint_phrases (phrases s) \<and>
     (\<forall>p \<in> set (phrases s). set p \<subseteq> set (selectedIndices s)) \<and>
     (\<forall>i \<in> set (selectedIndices s). i < length (tokens s) \<and> isWord (tokens s ! i))"

subsection \<open>Two picking states\<close>

text \<open>
  The article \<open>fast and furious driving\<close> has the tokens \<open>fast\<close> (0), \<open>and\<close> (2),
  \<open>furious\<close> (4), \<open>driving\<close> (6), with a blank between each two. In the first state
  \<open>fast\<close> and \<open>furious\<close> are selected. In the second \<open>fast\<close>, \<open>and\<close>,
  \<open>furious\<close> are selected and \<open>fast and\<close> has been merged with the connector
  between them.
\<close>

definition fast_furious :: picker where
  "fast_furious =
     handleWordClick (handleWordClick (startPicking (js ''fast and furious driving'')) 0) 4"

definition example_picker :: picker where
  "example_picker =
     foldl ui_step (startPicking (js ''fast and furious driving''))
       [WordClick 0, WordClick 2, WordClick 4, ConnectorClick 1]"

section \<open>Proofs\<close>

subsection \<open>The tokenizer emits the input, cut into pieces\<close>

lemma concat_splitLoop: "concat (splitLoop pending str) = pending @ str"
proof (induction pending str rule: splitLoop.induct)
  case (1 pending)
  show ?case by simp
next
  case (2 pending c cs)
  show ?case
  proof (cases "matchSeparator (c # cs)")
    case None
    with "2.IH"(1) show ?thesis by simp
  next
    case (Some mr)
    obtain m rest where mr: "mr = (m, rest)"
      by (cases mr)
    have "m @ rest = c # cs"
      using Some mr by (intro matchSeparator_append) simp
    moreover have "concat (splitLoop [] rest) = rest"
      using "2.IH"(2) [OF Some mr [symmetric]] by simp
    ultimately show ?thesis
      using Some mr by simp
  qed
qed

lemma concat_filter_nonempty: "concat (filter (\<lambda>x. x \<noteq> []) xss) = concat xss"
  by (induction xss) auto

lemma map_text_tokenize:
  "map tokenText (tokenize str) = filter (\<lambda>token. token \<noteq> []) (regexp_split str)"
proof -
  have "tokenText \<circ> (\<lambda>(i, token). \<lparr>tokenText = token, index = i,
            isWord = (\<exists>c \<in> set token. isAsciiLetter c),
            isNewline = (token = [0x0A])\<rparr>) = snd"
    by (rule ext) (simp add: case_prod_beta)
  then show ?thesis
    by (simp add: tokenize_def Let_def)
qed

subsection \<open>Finding the phrase of a position\<close>

lemma getPhraseForIndex_Some_iff:
  "getPhraseForIndex ps i = Some (k, p) \<longleftrightarrow>
     k < length ps \<and> ps ! k = p \<and> i \<in> set p \<and> (\<forall>j<k. i \<notin> set (ps ! j))"
  unfolding getPhraseForIndex_def find_Some_iff
  by (auto simp: nth_enumerate_eq)

lemma getPhraseForIndex_None_iff:
  "getPhraseForIndex ps i = None \<longleftrightarrow> (\<forall>p \<in> set ps. i \<notin> set p)"
proof -
  have "set ps = snd ` set (enumerate 0 ps)"
    by (metis map_snd_enumerate set_map)
  then show ?thesis
    unfolding getPhraseForIndex_def find_None_iff by auto
qed

lemma disjoint_phrases_sorted_wrt:
  "disjoint_phrases ps = sorted_wrt (\<lambda>p q. set p \<inter> set q = {}) ps"
  by (induction ps) auto

lemma disjoint_phrases_nth:
  assumes "disjoint_phrases ps" "i < length ps" "j < length ps" "i \<noteq> j"
  shows "set (ps ! i) \<inter> set (ps ! j) = {}"
proof (cases "i < j")
  case True
  with assms show ?thesis
    by (simp add: disjoint_phrases_sorted_wrt sorted_wrt_iff_nth_less)
next
  case False
  with assms have "j < i" by simp
  with assms have "set (ps ! j) \<inter> set (ps ! i) = {}"
    by (simp add: disjoint_phrases_sorted_wrt sorted_wrt_iff_nth_less)
  then show ?thesis by blast
qed

lemma disjoint_phrases_snoc:
  "disjoint_phrases (ps @ [q]) \<longleftrightarrow> disjoint_phrases ps \<and> (\<forall>p \<in> set ps. set p \<inter> set q = {})"
  by (induction ps) auto

lemma set_filter_refs:
  "set (map snd (filter (\<lambda>p. keep (fst p)) (enumerate n ps))) =
     {ps ! j | j. j < length ps \<and> keep (n + j)}"
proof -
  have "set (map snd (filter (\<lambda>p. keep (fst p)) (enumerate n ps))) =
          snd ` {p \<in> set (enumerate n ps). keep (fst p)}"
    by simp
  also have "\<dots> = {ps ! j | j. j < length ps \<and> keep (n + j)}"
  proof (intro set_eqI iffI)
    fix x
    assume "x \<in> snd ` {p \<in> set (enumerate n ps). keep (fst p)}"
    then obtain r where r: "(r, x) \<in> set (enumerate n ps)" "keep r"
      by auto
    then have "n \<le> r" "r - n < length ps" "ps ! (r - n) = x"
      by (auto simp: in_set_enumerate_eq)
    with r(2) show "x \<in> {ps ! j | j. j < length ps \<and> keep (n + j)}"
      by (intro CollectI exI [of _ "r - n"]) simp
  next
    fix x
    assume "x \<in> {ps ! j | j. j < length ps \<and> keep (n + j)}"
    then obtain j where j: "x = ps ! j" "j < length ps" "keep (n + j)"
      by auto
    then have "(n + j, x) \<in> set (enumerate n ps)"
      by (simp add: in_set_enumerate_eq)
    with j(3) show "x \<in> snd ` {p \<in> set (enumerate n ps). keep (fst p)}"
      by force
  qed
  finally show ?thesis .
qed

lemma filter_refs_subset:
  "set (map snd (filter Q (enumerate n ps))) \<subseteq> set ps"
  by (auto simp: in_set_enumerate_eq)

lemma disjoint_filter_refs:
  "disjoint_phrases ps \<Longrightarrow> disjoint_phrases (map snd (filter Q (enumerate n ps)))"
proof (induction ps arbitrary: n)
  case Nil
  show ?case by simp
next
  case (Cons p ps)
  have sub: "set (map snd (filter Q (enumerate (Suc n) ps))) \<subseteq> set ps"
    by (rule filter_refs_subset)
  from Cons.prems have "disjoint_phrases ps" and p: "\<forall>q \<in> set ps. set p \<inter> set q = {}"
    by simp_all
  then have "disjoint_phrases (map snd (filter Q (enumerate (Suc n) ps)))"
    using Cons.IH by blast
  moreover have "\<forall>q \<in> set (map snd (filter Q (enumerate (Suc n) ps))). set p \<inter> set q = {}"
    using p sub by blast
  ultimately show ?case
    by (cases "Q (n, p)") simp_all
qed

lemma remove_ref:
  "k < length ps \<Longrightarrow>
     map snd (filter (\<lambda>p. fst p \<noteq> n + k) (enumerate n ps)) = take k ps @ drop (Suc k) ps"
proof (induction ps arbitrary: n k)
  case Nil
  then show ?case by simp
next
  case (Cons p ps)
  show ?case
  proof (cases k)
    case 0
    have "filter (\<lambda>p. fst p \<noteq> n) (enumerate (Suc n) ps) = enumerate (Suc n) ps"
      by (rule filter_True) (auto simp: in_set_enumerate_eq)
    with 0 show ?thesis by simp
  next
    case (Suc k')
    with Cons.prems have "k' < length ps" by simp
    from Cons.IH [OF this, of "Suc n"] Suc show ?thesis by simp
  qed
qed

lemma getPhraseForIndex_disjoint:
  assumes "disjoint_phrases ps" "k < length ps" "i \<in> set (ps ! k)"
  shows "getPhraseForIndex ps i = Some (k, ps ! k)"
proof -
  have "i \<notin> set (ps ! j)" if "j < k" for j
    using disjoint_phrases_nth [OF assms(1), of j k] that assms(2,3) by auto
  with assms(2,3) show ?thesis
    by (simp add: getPhraseForIndex_Some_iff)
qed

lemma fold_set_delete:
  "fold set_delete q sel = filter (\<lambda>x. x \<notin> set q) sel"
proof (induction q arbitrary: sel)
  case Nil
  show ?case by simp
next
  case (Cons a q)
  have "set_delete a sel = filter (\<lambda>x. x \<noteq> a) sel"
    by (induction sel) (auto simp: set_delete_def)
  with Cons show ?case
    by (auto intro: filter_cong)
qed

subsection \<open>Merging keeps the phrases disjoint\<close>

lemma phrases_handleMerge:
  "phrases (handleMerge s a b) =
     map snd (filter (\<lambda>p. Some (fst p) \<noteq> map_option fst (getPhraseForIndex (phrases s) a) \<and>
                           Some (fst p) \<noteq> map_option fst (getPhraseForIndex (phrases s) b))
                (enumerate 0 (phrases s))) @
     [case (getPhraseForIndex (phrases s) a, getPhraseForIndex (phrases s) b) of
        (Some p1, Some p2) \<Rightarrow> sort (snd p1 @ snd p2)
      | (Some p1, None) \<Rightarrow> sort (snd p1 @ [b])
      | (None, Some p2) \<Rightarrow> sort (a # snd p2)
      | (None, None) \<Rightarrow> sort [a, b]]"
  by (simp add: handleMerge_def Let_def)

lemma handleMerge_disjoint:
  assumes "disjoint_phrases (phrases s)"
  shows "disjoint_phrases (phrases (handleMerge s a b))"
proof -
  let ?ps = "phrases s"
  let ?r1 = "getPhraseForIndex ?ps a" and ?r2 = "getPhraseForIndex ?ps b"
  let ?kept = "map snd (filter (\<lambda>p. Some (fst p) \<noteq> map_option fst ?r1 \<and>
                           Some (fst p) \<noteq> map_option fst ?r2) (enumerate 0 ?ps))"
  let ?new = "case (?r1, ?r2) of
        (Some p1, Some p2) \<Rightarrow> sort (snd p1 @ snd p2)
      | (Some p1, None) \<Rightarrow> sort (snd p1 @ [b])
      | (None, Some p2) \<Rightarrow> sort (a # snd p2)
      | (None, None) \<Rightarrow> sort [a, b]"
  have apart: "set (?ps ! j) \<inter> (case getPhraseForIndex ?ps x of Some p \<Rightarrow> set (snd p) | None \<Rightarrow> {x}) = {}"
    if j: "j < length ?ps" "Some j \<noteq> map_option fst (getPhraseForIndex ?ps x)" for j x
  proof (cases "getPhraseForIndex ?ps x")
    case None
    then have "x \<notin> set (?ps ! j)"
      using j(1) by (simp add: getPhraseForIndex_None_iff)
    with None show ?thesis by simp
  next
    case (Some kp)
    obtain k p where kp: "kp = (k, p)" by (cases kp)
    with Some have "k < length ?ps" "?ps ! k = p"
      by (simp_all add: getPhraseForIndex_Some_iff)
    moreover have "j \<noteq> k"
      using j(2) Some kp by simp
    ultimately have "set (?ps ! j) \<inter> set p = {}"
      using disjoint_phrases_nth [OF assms j(1), of k] by simp
    with Some kp show ?thesis by simp
  qed
  have new: "set ?new = (case ?r1 of Some p \<Rightarrow> set (snd p) | None \<Rightarrow> {a}) \<union>
                        (case ?r2 of Some p \<Rightarrow> set (snd p) | None \<Rightarrow> {b})"
    by (auto split: option.splits simp: set_insort_key)
  have "set q \<inter> set ?new = {}" if "q \<in> set ?kept" for q
  proof -
    from that obtain j where j: "q = ?ps ! j" "j < length ?ps"
      "Some j \<noteq> map_option fst ?r1" "Some j \<noteq> map_option fst ?r2"
      using set_filter_refs [of "\<lambda>r. Some r \<noteq> map_option fst ?r1 \<and> Some r \<noteq> map_option fst ?r2" 0 ?ps]
      by auto
    from apart [OF j(2,3)] apart [OF j(2,4)] show ?thesis
      unfolding new j(1) by blast
  qed
  moreover have "disjoint_phrases ?kept"
    using assms by (rule disjoint_filter_refs)
  ultimately show ?thesis
    unfolding phrases_handleMerge disjoint_phrases_snoc by blast
qed

lemma phrases_handleWordClick_subset:
  "\<exists>Q. phrases (handleWordClick s i) = map snd (filter Q (enumerate 0 (phrases s)))"
proof (cases "phrases (handleWordClick s i) = phrases s")
  case True
  have "phrases s = map snd (filter (\<lambda>_. True) (enumerate 0 (phrases s)))"
    by simp
  with True show ?thesis by metis
next
  case False
  then show ?thesis
    by (auto simp: handleWordClick_def split: if_splits option.splits)
qed

lemma handleWordClick_disjoint:
  assumes "disjoint_phrases (phrases s)"
  shows "disjoint_phrases (phrases (handleWordClick s i))"
  using phrases_handleWordClick_subset [of s i] disjoint_filter_refs [OF assms] by metis

lemma apply_operation_disjoint:
  "disjoint_phrases (phrases s) \<Longrightarrow> disjoint_phrases (phrases (apply_operation s x))"
  by (cases x) (simp_all add: handleMerge_disjoint handleWordClick_disjoint handleReset_def)

lemma run_disjoint:
  "disjoint_phrases (phrases s) \<Longrightarrow> disjoint_phrases (phrases (foldl apply_operation s ops))"
  by (induction ops arbitrary: s) (simp_all add: apply_operation_disjoint)

lemma phrases_startPicking: "phrases (startPicking str) = []"
  by (simp add: startPicking_def handleStartPicking_def initial_def)

subsection \<open>Export, start and lookups\<close>

lemma sort_uniq: "sort (uniq xs) = sorted_list_of_set (set xs)"
proof -
  have "sorted (sort (uniq xs))" "distinct (sort (uniq xs))" "set (sort (uniq xs)) = set xs"
    by (simp_all add: uniq_def)
  then show ?thesis
    by (metis sorted_list_of_set.sorted_key_list_of_set_unique List.finite_set
        sorted_list_of_set.idem_if_sorted_distinct)
qed

lemma fold_pushSingleWord:
  "\<forall>i \<in> set sel. i < length (tokens s) \<Longrightarrow>
   fold (pushSingleWord s) sel (Inr ws) =
     Inr (ws @ map (\<lambda>i. normalizeWord (tokenText (tokens s ! i)))
                (filter (\<lambda>i. getPhraseForIndex (phrases s) i = None) sel))"
  by (induction sel arbitrary: ws) (simp_all add: pushSingleWord_def)

lemma trim_empty_iff: "trim str = [] \<longleftrightarrow> (\<forall>c \<in> set str. isSpace c)"
proof
  assume "trim str = []"
  then have all: "\<forall>c \<in> set (dropWhile isSpace str). isSpace c"
    by (simp add: trim_def dropWhile_eq_Nil_conv)
  have "dropWhile isSpace str = []"
  proof (rule ccontr)
    assume ne: "dropWhile isSpace str \<noteq> []"
    then have "\<not> isSpace (hd (dropWhile isSpace str))"
      by (rule hd_dropWhile)
    with ne all show False
      by simp
  qed
  then show "\<forall>c \<in> set str. isSpace c"
    by (simp add: dropWhile_eq_Nil_conv)
next
  assume "\<forall>c \<in> set str. isSpace c"
  then have d: "dropWhile isSpace str = []"
    by (simp add: dropWhile_eq_Nil_conv)
  show "trim str = []"
    by (simp add: trim_def d)
qed

subsection \<open>Adjacent pairs\<close>

lemma findAdjacentPairs_iff:
  "(a, b) \<in> set (findAdjacentPairs s) \<longleftrightarrow>
     (\<exists>i. Suc i < length (filter isWord (tokens s)) \<and>
          a = index (filter isWord (tokens s) ! i) \<and>
          b = index (filter isWord (tokens s) ! Suc i)) \<and>
     a \<in> set (selectedIndices s) \<and> b \<in> set (selectedIndices s) \<and>
     (getPhraseForIndex (phrases s) a = None \<or> getPhraseForIndex (phrases s) b = None \<or>
      map_option fst (getPhraseForIndex (phrases s) a) \<noteq>
      map_option fst (getPhraseForIndex (phrases s) b))"
  unfolding findAdjacentPairs_def Let_def
  by (auto simp: less_diff_conv split: if_splits)

lemma consecutive_strict_sorted:
  fixes xs :: "nat list"
  assumes "sorted_wrt (<) xs"
  shows "(\<exists>i. Suc i < length xs \<and> a = xs ! i \<and> b = xs ! Suc i) \<longleftrightarrow>
         a \<in> set xs \<and> b \<in> set xs \<and> a < b \<and> (\<forall>k \<in> set xs. \<not> (a < k \<and> k < b))"
proof -
  have up: "xs ! i < xs ! j" if "i < j" "j < length xs" for i j
    using assms that by (rule sorted_wrt_nth_less)
  have down: "i < j" if "xs ! i < xs ! j" "i < length xs" "j < length xs" for i j
  proof (rule ccontr)
    assume "\<not> i < j"
    then have "j = i \<or> j < i" by auto
    then show False
      using that up [of j i] by auto
  qed
  show ?thesis
  proof
    assume "\<exists>i. Suc i < length xs \<and> a = xs ! i \<and> b = xs ! Suc i"
    then obtain i where i: "Suc i < length xs" "a = xs ! i" "b = xs ! Suc i"
      by blast
    have "\<not> (a < k \<and> k < b)" if "k \<in> set xs" for k
    proof
      assume k: "a < k \<and> k < b"
      from that obtain j where j: "j < length xs" "k = xs ! j"
        by (auto simp: in_set_conv_nth)
      from k j i have "i < j" "j < Suc i"
        using down [of i j] down [of j "Suc i"] by auto
      then show False by simp
    qed
    with i up [of i "Suc i"] show
      "a \<in> set xs \<and> b \<in> set xs \<and> a < b \<and> (\<forall>k \<in> set xs. \<not> (a < k \<and> k < b))"
      by auto
  next
    assume r: "a \<in> set xs \<and> b \<in> set xs \<and> a < b \<and> (\<forall>k \<in> set xs. \<not> (a < k \<and> k < b))"
    then obtain i j where ij: "i < length xs" "a = xs ! i" "j < length xs" "b = xs ! j"
      by (auto simp: in_set_conv_nth)
    with r have "i < j"
      using down [of i j] by simp
    have "j = Suc i"
    proof (rule ccontr)
      assume "j \<noteq> Suc i"
      with \<open>i < j\<close> have "Suc i < j" by simp
      then have "a < xs ! Suc i" "xs ! Suc i < b" "xs ! Suc i \<in> set xs"
        using ij up [of i "Suc i"] up [of "Suc i" j] by auto
      with r show False by blast
    qed
    with ij show "\<exists>i. Suc i < length xs \<and> a = xs ! i \<and> b = xs ! Suc i"
      by blast
  qed
qed

lemma index_word_tokens:
  assumes "indexed toks"
  shows "map index (filter isWord toks) = filter (\<lambda>i. isWord (toks ! i)) [0..<length toks]"
proof -
  have idx: "index (toks ! j) = j" if "j < length toks" for j
  proof -
    have "map index toks ! j = [0..<length toks] ! j"
      using assms by (simp add: indexed_def)
    with that show ?thesis by simp
  qed
  have "isWord (toks ! index t) = isWord t" if "t \<in> set toks" for t
    using that idx by (auto simp: in_set_conv_nth)
  then have "filter isWord toks = filter ((\<lambda>i. isWord (toks ! i)) \<circ> index) toks"
    by (intro filter_cong) simp_all
  then have "map index (filter isWord toks) =
      filter (\<lambda>i. isWord (toks ! i)) (map index toks)"
    by (simp add: filter_map)
  with assms show ?thesis
    by (simp add: indexed_def)
qed

lemma consecutive_words_iff:
  assumes "indexed toks"
  shows "(\<exists>i. Suc i < length (filter isWord toks) \<and>
            a = index (filter isWord toks ! i) \<and> b = index (filter isWord toks ! Suc i)) \<longleftrightarrow>
         consecutive_words toks a b"
proof -
  let ?xs = "filter (\<lambda>i. isWord (toks ! i)) [0..<length toks]"
  have xs: "map index (filter isWord toks) = ?xs"
    using assms by (rule index_word_tokens)
  then have len: "length (filter isWord toks) = length ?xs"
    by (metis length_map)
  have nth: "index (filter isWord toks ! i) = ?xs ! i" if "i < length ?xs" for i
    using that xs len by (metis nth_map)
  have "(\<exists>i. Suc i < length (filter isWord toks) \<and>
            a = index (filter isWord toks ! i) \<and> b = index (filter isWord toks ! Suc i)) \<longleftrightarrow>
        (\<exists>i. Suc i < length ?xs \<and> a = ?xs ! i \<and> b = ?xs ! Suc i)"
    unfolding len using nth by (metis Suc_lessD)
  also have "\<dots> \<longleftrightarrow> a \<in> set ?xs \<and> b \<in> set ?xs \<and> a < b \<and> (\<forall>k \<in> set ?xs. \<not> (a < k \<and> k < b))"
    by (rule consecutive_strict_sorted) (simp add: sorted_wrt_filter)
  also have "\<dots> \<longleftrightarrow> consecutive_words toks a b"
  proof -
    have "(\<forall>k \<in> set ?xs. \<not> (a < k \<and> k < b)) \<longleftrightarrow> (\<forall>k \<in> {a<..<b}. \<not> isWord (toks ! k))"
      if "b < length toks"
      using that by auto (meson less_trans)
    then show ?thesis
      unfolding consecutive_words_def by auto
  qed
  finally show ?thesis .
qed

lemma same_phrase_iff:
  assumes "disjoint_phrases ps"
  shows "(getPhraseForIndex ps a = None \<or> getPhraseForIndex ps b = None \<or>
          map_option fst (getPhraseForIndex ps a) \<noteq> map_option fst (getPhraseForIndex ps b)) \<longleftrightarrow>
         \<not> (\<exists>p \<in> set ps. a \<in> set p \<and> b \<in> set p)"
proof
  assume l: "getPhraseForIndex ps a = None \<or> getPhraseForIndex ps b = None \<or>
          map_option fst (getPhraseForIndex ps a) \<noteq> map_option fst (getPhraseForIndex ps b)"
  show "\<not> (\<exists>p \<in> set ps. a \<in> set p \<and> b \<in> set p)"
  proof
    assume "\<exists>p \<in> set ps. a \<in> set p \<and> b \<in> set p"
    then obtain p where "p \<in> set ps" "a \<in> set p" "b \<in> set p"
      by blast
    then obtain k where "k < length ps" "a \<in> set (ps ! k)" "b \<in> set (ps ! k)"
      by (metis in_set_conv_nth)
    then have "getPhraseForIndex ps a = Some (k, ps ! k)" "getPhraseForIndex ps b = Some (k, ps ! k)"
      using assms by (simp_all add: getPhraseForIndex_disjoint)
    with l show False by simp
  qed
next
  assume r: "\<not> (\<exists>p \<in> set ps. a \<in> set p \<and> b \<in> set p)"
  show "getPhraseForIndex ps a = None \<or> getPhraseForIndex ps b = None \<or>
          map_option fst (getPhraseForIndex ps a) \<noteq> map_option fst (getPhraseForIndex ps b)"
  proof (rule ccontr)
    assume "\<not> ?thesis"
    then obtain k p q where "getPhraseForIndex ps a = Some (k, p)" "getPhraseForIndex ps b = Some (k, q)"
      by auto
    then have "k < length ps" "a \<in> set (ps ! k)" "b \<in> set (ps ! k)"
      by (auto simp: getPhraseForIndex_Some_iff)
    with r show False
      by (meson nth_mem)
  qed
qed

lemma js_Cons: "js (c # cs) = of_nat (of_char c) # js cs"
  by (simp add: js_def)

lemma js_Nil: "js [] = []"
  by (simp add: js_def)

lemma tokenize_fast_furious:
  "tokenize (js ''fast and furious driving'') =
     [\<lparr>tokenText = js ''fast'', index = 0, isWord = True, isNewline = False\<rparr>,
      \<lparr>tokenText = js '' '', index = 1, isWord = False, isNewline = False\<rparr>,
      \<lparr>tokenText = js ''and'', index = 2, isWord = True, isNewline = False\<rparr>,
      \<lparr>tokenText = js '' '', index = 3, isWord = False, isNewline = False\<rparr>,
      \<lparr>tokenText = js ''furious'', index = 4, isWord = True, isNewline = False\<rparr>,
      \<lparr>tokenText = js '' '', index = 5, isWord = False, isNewline = False\<rparr>,
      \<lparr>tokenText = js ''driving'', index = 6, isWord = True, isNewline = False\<rparr>]"
  by (simp add: tokenize_def regexp_split_def js_Cons js_Nil isSpace_def isPunct_def isAsciiLetter_def)

subsection \<open>The invariant of the picking view\<close>

lemma indexed_tokenize: "indexed (tokenize str)"
proof -
  have "index \<circ> (\<lambda>(i, token). \<lparr>tokenText = token, index = i,
            isWord = (\<exists>c \<in> set token. isAsciiLetter c),
            isNewline = (token = [0x0A])\<rparr>) = fst"
    by (rule ext) (simp add: case_prod_beta)
  then show ?thesis
    by (simp add: indexed_def tokenize_def Let_def)
qed

lemma wellformed_startPicking: "wellformed (startPicking str)"
  using indexed_tokenize [of str]
  by (simp add: wellformed_def startPicking_def handleStartPicking_def initial_def indexed_def)

lemma wellformed_handleReset: "wellformed (handleReset s)"
  by (simp add: wellformed_def handleReset_def indexed_def)

lemma wellformed_handleWordClick:
  assumes "wellformed s"
  shows "wellformed (handleWordClick s i)"
proof (cases "i < length (tokens s) \<and> isWord (tokens s ! i)")
  case False
  with assms show ?thesis
    by (auto simp: handleWordClick_def)
next
  case word: True
  show ?thesis
  proof (cases "getPhraseForIndex (phrases s) i")
    case None
    then have "\<forall>p \<in> set (phrases s). i \<notin> set p"
      by (simp add: getPhraseForIndex_None_iff)
    with assms word None show ?thesis
      by (auto simp: wellformed_def handleWordClick_def set_add_def set_delete_def)
  next
    case (Some kq)
    obtain k q where kq: "kq = (k, q)" by (cases kq)
    with Some have k: "k < length (phrases s)" "phrases s ! k = q"
      by (simp_all add: getPhraseForIndex_Some_iff)
    let ?s' = "s\<lparr>selectedIndices := filter (\<lambda>x. x \<notin> set q) (selectedIndices s),
        phrases := map snd (filter (\<lambda>p. fst p \<noteq> k) (enumerate 0 (phrases s)))\<rparr>"
    have eq: "handleWordClick s i = ?s'"
      using word Some kq by (simp add: handleWordClick_def fold_set_delete)
    have dis: "disjoint_phrases (phrases s)"
      and sub: "\<forall>p \<in> set (phrases s). set p \<subseteq> set (selectedIndices s)"
      using assms by (simp_all add: wellformed_def)
    have "set p \<subseteq> set (selectedIndices ?s')" if "p \<in> set (phrases ?s')" for p
    proof -
      from that obtain j where j: "p = phrases s ! j" "j < length (phrases s)" "j \<noteq> k"
        using set_filter_refs [of "\<lambda>r. r \<noteq> k" 0 "phrases s"] by auto
      then have "set p \<inter> set q = {}"
        using disjoint_phrases_nth [OF dis, of j k] k by simp
      moreover have "set p \<subseteq> set (selectedIndices s)"
        using sub j by simp
      ultimately show ?thesis by auto
    qed
    moreover have "disjoint_phrases (phrases ?s')"
      using dis by (simp add: disjoint_filter_refs)
    ultimately show ?thesis
      unfolding eq using assms by (simp add: wellformed_def)
  qed
qed

lemma set_newPhrase:
  "set (case (r1, r2) of
        (Some p1, Some p2) \<Rightarrow> sort (snd p1 @ snd p2)
      | (Some p1, None) \<Rightarrow> sort (snd p1 @ [b])
      | (None, Some p2) \<Rightarrow> sort (a # snd p2)
      | (None, None) \<Rightarrow> sort [a, b]) =
   (case r1 of Some p \<Rightarrow> set (snd p) | None \<Rightarrow> {a}) \<union>
   (case r2 of Some (p :: phrase_obj) \<Rightarrow> set (snd p) | None \<Rightarrow> {b :: nat})"
  by (auto split: option.splits simp: set_insort_key)

lemma wellformed_handleMerge:
  assumes "wellformed s" "a \<in> set (selectedIndices s)" "b \<in> set (selectedIndices s)"
  shows "wellformed (handleMerge s a b)"
proof -
  have sub: "\<forall>p \<in> set (phrases s). set p \<subseteq> set (selectedIndices s)"
    using assms(1) by (simp add: wellformed_def)
  have found: "(case getPhraseForIndex (phrases s) x of Some p \<Rightarrow> set (snd p) | None \<Rightarrow> {x})
      \<subseteq> set (selectedIndices s)" if "x \<in> set (selectedIndices s)" for x
  proof (cases "getPhraseForIndex (phrases s) x")
    case None
    with that show ?thesis by simp
  next
    case (Some kp)
    obtain k p where "kp = (k, p)" by (cases kp)
    with Some have "p \<in> set (phrases s)"
      by (auto simp: getPhraseForIndex_Some_iff)
    with sub Some \<open>kp = (k, p)\<close> show ?thesis by simp
  qed
  have "set p \<subseteq> set (selectedIndices s)" if "p \<in> set (phrases (handleMerge s a b))" for p
  proof -
    let ?new = "case (getPhraseForIndex (phrases s) a, getPhraseForIndex (phrases s) b) of
        (Some p1, Some p2) \<Rightarrow> sort (snd p1 @ snd p2)
      | (Some p1, None) \<Rightarrow> sort (snd p1 @ [b])
      | (None, Some p2) \<Rightarrow> sort (a # snd p2)
      | (None, None) \<Rightarrow> sort [a, b]"
    have "set ?new \<subseteq> set (selectedIndices s)"
      unfolding set_newPhrase using found [OF assms(2)] found [OF assms(3)] by blast
    moreover have "p \<in> set (phrases s) \<or> p = ?new"
      using that filter_refs_subset unfolding phrases_handleMerge by fastforce
    ultimately show ?thesis
      using sub by blast
  qed
  moreover have "selectedIndices (handleMerge s a b) = selectedIndices s"
    "tokens (handleMerge s a b) = tokens s"
    by (simp_all add: handleMerge_def Let_def)
  ultimately show ?thesis
    using assms(1) handleMerge_disjoint [of s a b] by (simp add: wellformed_def)
qed

lemma findAdjacentPairs_selected:
  "(a, b) \<in> set (findAdjacentPairs s) \<Longrightarrow>
     a \<in> set (selectedIndices s) \<and> b \<in> set (selectedIndices s)"
  by (simp add: findAdjacentPairs_iff)

lemma wellformed_connectorClick:
  assumes "wellformed s"
  shows "wellformed (connectorClick s i)"
proof (cases "connectorPair s i")
  case None
  with assms show ?thesis by (simp add: connectorClick_def)
next
  case (Some pair)
  obtain a b where pair: "pair = (a, b)" by (cases pair)
  from Some have "find (\<lambda>(i1, i2). i1 < i \<and> i < i2) (adjacentPairs s) = Some pair"
    by (simp add: connectorPair_def split: if_splits)
  then have "pair \<in> set (adjacentPairs s)"
    by (metis find_Some_iff nth_mem)
  then have "(a, b) \<in> set (findAdjacentPairs s)"
    using pair by (simp add: adjacentPairs_def split: if_splits)
  then have "wellformed (handleMerge s a b)"
    using assms findAdjacentPairs_selected wellformed_handleMerge by blast
  with Some pair show ?thesis by (simp add: connectorClick_def)
qed

lemma wellformed_ui_step: "wellformed s \<Longrightarrow> wellformed (ui_step s e)"
  by (cases e)
    (simp_all add: wellformed_handleWordClick wellformed_connectorClick wellformed_handleReset)

lemma wellformed_ui_run: "wellformed s \<Longrightarrow> wellformed (foldl ui_step s evs)"
  by (induction evs arbitrary: s) (simp_all add: wellformed_ui_step)

subsection \<open>The two picking states, evaluated\<close>

lemma startPicking_example:
  "startPicking (js ''fast and furious driving'') =
      \<lparr>articleText = js ''fast and furious driving'', mode = Picking,
       tokens = tokenize (js ''fast and furious driving''),
       selectedIndices = [], phrases = [], hoveredConnector = None, wordMeanings = Map.empty\<rparr>"
  by (simp add: startPicking_def handleStartPicking_def initial_def trim_empty_iff js_Cons isSpace_def)

lemmas example_simps =
  startPicking_example tokenize_fast_furious handleWordClick_def getPhraseForIndex_def
  set_add_def set_delete_def connectorClick_def connectorPair_def adjacentPairs_def
  findAdjacentPairs_def handleMerge_def handleReset_def Let_def upt_rec

lemma example_picker_eq:
  "example_picker =
      \<lparr>articleText = js ''fast and furious driving'', mode = Picking,
       tokens = tokenize (js ''fast and furious driving''),
       selectedIndices = [0, 2, 4], phrases = [[0, 2]], hoveredConnector = None,
       wordMeanings = Map.empty\<rparr>"
  by (simp add: example_picker_def example_simps)

lemmas normalizeWord_simps =
  normalizeWord_def toLowerCase_def js_Cons js_Nil isAsciiLetter_def

lemma normalizeWord_Apple: "normalizeWord (js ''Apple'') = js ''apple''"
  by (simp add: normalizeWord_simps)

lemma normalizeWord_apple: "normalizeWord (js ''apple'') = js ''apple''"
  by (simp add: normalizeWord_simps)

lemma normalizeWord_APPLE: "normalizeWord (js ''APPLE'') = js ''apple''"
  by (simp add: normalizeWord_simps)

lemma normalizeWord_42: "normalizeWord (js ''42!'') = []"
  by (simp add: normalizeWord_simps)

lemma normalizeWord_furious: "normalizeWord (js ''furious'') = js ''furious''"
  by (simp add: normalizeWord_simps)

subsection \<open>The requests of one render\<close>

text \<open>
  The words that the panel is given are normalized and distinct, so the effect of one
  render issues no request twice.
\<close>

lemma lower_of_upper:
  fixes c :: jschar
  assumes "0x41 \<le> c" "c \<le> 0x5A"
  shows "0x61 \<le> c + 0x20 \<and> c + 0x20 \<le> 0x7A"
proof -
  from assms have "65 \<le> unat c" "unat c \<le> 90"
    by (simp_all add: word_le_nat_alt)
  moreover from this have "unat (c + 0x20) = unat c + 32"
    by (simp add: unat_word_ariths)
  ultimately show ?thesis
    by (simp add: word_le_nat_alt)
qed

lemma normalizeWord_lower:
  assumes "c \<in> set (normalizeWord w)"
  shows "0x61 \<le> c \<and> c \<le> 0x7A"
proof -
  from assms have letter: "isAsciiLetter c" and "c \<in> set (toLowerCase w)"
    by (simp_all add: normalizeWord_def)
  then obtain d where d: "c \<in> set (if 0x41 \<le> d \<and> d \<le> 0x5A then [d + 0x20]
                      else if d = 0x0130 then [0x69, 0x0307]
                      else if d = 0x212A then [0x6B]
                      else [d])"
    unfolding toLowerCase_def set_concat set_map by blast
  show ?thesis
  proof (cases "0x41 \<le> d \<and> d \<le> 0x5A")
    case True
    with d have "c = d + 0x20" by simp
    with True lower_of_upper [of d] show ?thesis by simp
  next
    case False
    with d have "c = 0x69 \<or> c = 0x0307 \<or> c = 0x6B \<or> c = d"
      by (auto split: if_splits)
    with False letter show ?thesis
      by (auto simp: isAsciiLetter_def)
  qed
qed

lemma normalizeWord_of_lower:
  assumes "\<forall>c \<in> set w. 0x61 \<le> c \<and> c \<le> 0x7A"
  shows "normalizeWord w = w"
proof -
  have keep: "(if 0x41 \<le> c \<and> c \<le> 0x5A then [c + 0x20]
                      else if c = 0x0130 then [0x69, 0x0307]
                      else if c = 0x212A then [0x6B]
                      else [c]) = [c]" if "c \<in> set w" for c :: jschar
  proof -
    from that assms have "0x61 \<le> c" "c \<le> 0x7A" by auto
    then have "97 \<le> unat c" "unat c \<le> 122"
      by (simp_all add: word_le_nat_alt)
    then have "\<not> c \<le> 0x5A" "c \<noteq> 0x0130" "c \<noteq> 0x212A"
      by (auto simp: word_le_nat_alt)
    then show ?thesis by simp
  qed
  have "toLowerCase w = concat (map (\<lambda>c. [c]) w)"
    unfolding toLowerCase_def using keep by (intro arg_cong [where f = concat] map_cong) auto
  then have "toLowerCase w = w"
    by (simp add: concat_map_singleton)
  moreover have "filter isAsciiLetter w = w"
    using assms by (intro filter_True) (simp add: isAsciiLetter_def)
  ultimately show ?thesis
    by (simp add: normalizeWord_def)
qed

lemma normalizeWord_idem: "normalizeWord (normalizeWord w) = normalizeWord w"
  by (rule normalizeWord_of_lower) (simp add: normalizeWord_lower)

lemma fold_pushSingleWord_Inl: "fold (pushSingleWord s) sel (Inl e) = Inl e"
  by (induction sel) (simp_all add: pushSingleWord_def)

lemma fold_pushSingleWord_normalized:
  "fold (pushSingleWord s) sel (Inr ws0) = Inr ws \<Longrightarrow>
     set ws \<subseteq> set ws0 \<union> range normalizeWord"
proof (induction sel arbitrary: ws0)
  case Nil
  then show ?case by auto
next
  case (Cons i sel)
  show ?case
  proof (cases "pushSingleWord s i (Inr ws0)")
    case (Inl e)
    with Cons.prems show ?thesis
      by (simp add: fold_pushSingleWord_Inl)
  next
    case (Inr ws1)
    then have "set ws1 \<subseteq> set ws0 \<union> range normalizeWord"
      by (auto simp: pushSingleWord_def split: if_splits)
    moreover have "set ws \<subseteq> set ws1 \<union> range normalizeWord"
      using Cons.prems Inr by (intro Cons.IH) simp
    ultimately show ?thesis by blast
  qed
qed

lemma getSelectedWords_normalized:
  assumes "getSelectedWords s = Inr items"
  shows "distinct items \<and> (\<forall>w \<in> set items. normalizeWord w = w)"
proof -
  from assms obtain ws where ws: "fold (pushSingleWord s) (selectedIndices s) (Inr []) = Inr ws"
    and items: "items = uniq ws"
    by (auto simp: getSelectedWords_def split: sum.splits)
  from fold_pushSingleWord_normalized [OF ws] have "set items \<subseteq> range normalizeWord"
    by (simp add: items uniq_def)
  then have "\<forall>w \<in> set items. normalizeWord w = w"
    using normalizeWord_idem by auto
  moreover have "distinct items"
    by (simp add: items uniq_def)
  ultimately show ?thesis by simp
qed

lemma fetchNewMeanings_fold:
  "snd (fold (\<lambda>w (prev, requests).
             if wordMeanings render w = None
             then (case fetchMeaning render w prev of
                     (prev', None) \<Rightarrow> (prev', requests)
                   | (prev', Some request) \<Rightarrow> (prev', requests @ [request]))
             else (prev, requests))
          items (prev0, requests0)) =
   requests0 @ filter (\<lambda>k. k \<noteq> [] \<and> wordMeanings render k = None)
     (map normalizeWord (filter (\<lambda>w. wordMeanings render w = None) items))"
  by (induction items arbitrary: prev0 requests0) (simp_all add: fetchMeaning_def Let_def)

lemma fetchNewMeanings_requests:
  "snd (fetchNewMeanings render items) =
     filter (\<lambda>k. k \<noteq> [] \<and> wordMeanings render k = None)
       (map normalizeWord (filter (\<lambda>w. wordMeanings render w = None) items))"
  unfolding fetchNewMeanings_def fetchNewMeanings_fold by simp

lemma panel_requests_distinct:
  assumes "getSelectedWords render = Inr items"
  shows "distinct (snd (fetchNewMeanings render items))"
proof -
  from getSelectedWords_normalized [OF assms]
  have d: "distinct items" and n: "\<forall>w \<in> set items. normalizeWord w = w"
    by simp_all
  from n have "map normalizeWord (filter (\<lambda>w. wordMeanings render w = None) items) =
      filter (\<lambda>w. wordMeanings render w = None) items"
    by (intro map_idI) simp
  with d show ?thesis
    by (simp add: fetchNewMeanings_requests)
qed

section \<open>The claims\<close>

text \<open>
  C1, as the code has it. In every state whose phrases are disjoint, for every two
  positions of one phrase, \<open>handleMerge\<close> takes the phrase out of \<open>phrases\<close> and
  appends, as the last phrase, the sorted array that lists every member of it twice;
  the other phrases stay as they are, in order. So the member set of every phrase
  and the disjointness of the phrases are kept, while \<open>phrases\<close> itself is not
  left as it was.
\<close>

theorem merge_same_phrase:
  assumes "disjoint_phrases (phrases s)" "k < length (phrases s)"
    "posA \<in> set (phrases s ! k)" "posB \<in> set (phrases s ! k)"
  shows "handleMerge s posA posB =
           s\<lparr>phrases := take k (phrases s) @ drop (Suc k) (phrases s) @
                           [sort (phrases s ! k @ phrases s ! k)],
              hoveredConnector := None\<rparr> \<and>
         set (map set (phrases (handleMerge s posA posB))) = set (map set (phrases s)) \<and>
         disjoint_phrases (phrases (handleMerge s posA posB))"
proof -
  let ?ps = "phrases s"
  have a: "getPhraseForIndex ?ps posA = Some (k, ?ps ! k)"
    using assms(1,2,3) by (rule getPhraseForIndex_disjoint)
  have b: "getPhraseForIndex ?ps posB = Some (k, ?ps ! k)"
    using assms(1,2,4) by (rule getPhraseForIndex_disjoint)
  have kept: "map snd (filter (\<lambda>p. fst p \<noteq> k) (enumerate 0 ?ps)) = take k ?ps @ drop (Suc k) ?ps"
    using remove_ref [OF assms(2), of 0] by simp
  have eq: "handleMerge s posA posB =
           s\<lparr>phrases := take k ?ps @ drop (Suc k) ?ps @ [sort (?ps ! k @ ?ps ! k)],
              hoveredConnector := None\<rparr>"
    by (simp add: handleMerge_def Let_def a b kept)
  have "?ps = take k ?ps @ ?ps ! k # drop (Suc k) ?ps"
    using assms(2) by (rule id_take_nth_drop)
  then have "set (map set ?ps) =
      set (map set (take k ?ps @ ?ps ! k # drop (Suc k) ?ps))"
    by simp
  then have sets: "set (map set (phrases (handleMerge s posA posB))) = set (map set ?ps)"
    unfolding eq by auto
  show ?thesis
    using eq sets handleMerge_disjoint [OF assms(1), of posA posB] by simp
qed

theorem merge_same_phrase_witness:
  "disjoint_phrases (phrases example_picker) \<and> 0 < length (phrases example_picker) \<and>
   0 \<in> set (phrases example_picker ! 0) \<and> 2 \<in> set (phrases example_picker ! 0) \<and>
   set (map set (phrases (handleMerge example_picker 0 2))) = set (map set (phrases example_picker)) \<and>
   disjoint_phrases (phrases (handleMerge example_picker 0 2))"
proof -
  have h: "disjoint_phrases (phrases example_picker)" "0 < length (phrases example_picker)"
    "0 \<in> set (phrases example_picker ! 0)" "2 \<in> set (phrases example_picker ! 0)"
    by (simp_all add: example_picker_eq)
  from merge_same_phrase [OF h] h show ?thesis
    by blast
qed

text \<open>
  The call is not a no-op: merging \<open>fast\<close> and \<open>and\<close> once more, in the state
  where they are one phrase, turns the phrase \<open>[0, 2]\<close> into \<open>[0, 0, 2, 2]\<close>.
\<close>

theorem merge_same_phrase_counterexample:
  "0 \<in> set (phrases example_picker ! 0) \<and> 2 \<in> set (phrases example_picker ! 0) \<and>
   phrases (handleMerge example_picker 0 2) = [[0, 0, 2, 2]] \<and>
   phrases (handleMerge example_picker 0 2) \<noteq> phrases example_picker"
  by (simp add: example_picker_eq handleMerge_def getPhraseForIndex_def)

text \<open>
  C2. In every state reached from the state after Start Picking by calls of
  \<open>handleWordClick\<close>, \<open>handleMerge\<close> and \<open>handleReset\<close>, with any arguments, no
  token position belongs to two different phrases.
\<close>

theorem phrases_stay_disjoint:
  "disjoint_phrases (phrases (foldl apply_operation (startPicking str) ops))"
  by (rule run_disjoint) (simp add: phrases_startPicking)

theorem phrases_stay_disjoint_witness:
  "phrases (foldl apply_operation (startPicking (js ''fast and furious driving''))
      [Toggle 0, Toggle 2, Toggle 4, Toggle 6, Merge 0 2, Merge 4 6]) = [[0, 2], [4, 6]] \<and>
   disjoint_phrases (phrases (foldl apply_operation (startPicking (js ''fast and furious driving''))
      [Toggle 0, Toggle 2, Toggle 4, Toggle 6, Merge 0 2, Merge 4 6]))"
proof
  show "phrases (foldl apply_operation (startPicking (js ''fast and furious driving''))
      [Toggle 0, Toggle 2, Toggle 4, Toggle 6, Merge 0 2, Merge 4 6]) = [[0, 2], [4, 6]]"
    by (simp add: example_simps)
  show "disjoint_phrases (phrases (foldl apply_operation (startPicking (js ''fast and furious driving''))
      [Toggle 0, Toggle 2, Toggle 4, Toggle 6, Merge 0 2, Merge 4 6]))"
    by (rule phrases_stay_disjoint)
qed

text \<open>
  C3. For every input string, the texts of the tokens that \<open>tokenize\<close> emits,
  concatenated in emission order, are the input. (\<open>tokenize\<close> is a function of its
  input alone.)
\<close>

theorem tokenize_roundtrip: "concat (map tokenText (tokenize str)) = str"
  by (simp add: map_text_tokenize concat_filter_nonempty regexp_split_def concat_splitLoop)

theorem tokenize_roundtrip_witness:
  "concat (map tokenText (tokenize (js ''fast and furious driving''))) =
     js ''fast and furious driving''"
  by (rule tokenize_roundtrip)

text \<open>
  C4. Where the word token at position \<open>p\<close> belongs to a phrase (the
  phrases being disjoint), \<open>handleWordClick\<close> on \<open>p\<close> takes every member of the phrase
  out of the selection and the phrase out of \<open>phrases\<close>, and changes nothing else.
\<close>

theorem toggle_dissolves_phrase:
  assumes "p < length (tokens s)" "isWord (tokens s ! p)"
    "disjoint_phrases (phrases s)" "k < length (phrases s)" "p \<in> set (phrases s ! k)"
  shows "handleWordClick s p =
           s\<lparr>selectedIndices := filter (\<lambda>i. i \<notin> set (phrases s ! k)) (selectedIndices s),
              phrases := take k (phrases s) @ drop (Suc k) (phrases s)\<rparr> \<and>
         set (phrases s ! k) \<inter> set (selectedIndices (handleWordClick s p)) = {}"
proof -
  have "getPhraseForIndex (phrases s) p = Some (k, phrases s ! k)"
    using assms(3,4,5) by (rule getPhraseForIndex_disjoint)
  moreover have "map snd (filter (\<lambda>q. fst q \<noteq> k) (enumerate 0 (phrases s))) =
      take k (phrases s) @ drop (Suc k) (phrases s)"
    using remove_ref [OF assms(4), of 0] by simp
  ultimately have "handleWordClick s p =
           s\<lparr>selectedIndices := filter (\<lambda>i. i \<notin> set (phrases s ! k)) (selectedIndices s),
              phrases := take k (phrases s) @ drop (Suc k) (phrases s)\<rparr>"
    using assms(1,2) by (simp add: handleWordClick_def fold_set_delete)
  then show ?thesis
    by auto
qed

theorem toggle_dissolves_phrase_witness:
  "2 < length (tokens example_picker) \<and> isWord (tokens example_picker ! 2) \<and>
   disjoint_phrases (phrases example_picker) \<and> 0 < length (phrases example_picker) \<and>
   2 \<in> set (phrases example_picker ! 0) \<and>
   selectedIndices (handleWordClick example_picker 2) = [4] \<and>
   phrases (handleWordClick example_picker 2) = []"
proof -
  have h: "2 < length (tokens example_picker)" "isWord (tokens example_picker ! 2)"
   "disjoint_phrases (phrases example_picker)" "0 < length (phrases example_picker)"
   "2 \<in> set (phrases example_picker ! 0)"
    by (simp_all add: example_picker_eq tokenize_fast_furious)
  from toggle_dissolves_phrase [OF h] h show ?thesis
    by (simp add: example_picker_eq)
qed

text \<open>
  C5, as the code has it. A call of \<open>fetchMeaning\<close> for a key that has a record in
  the \<open>wordMeanings\<close> of its render, whatever the record holds, does nothing. So of
  two calls for two words with the same non-empty normalized form that has no record
  yet, made from two renders, the second from the render that follows the first call,
  the first issues the request and the second issues none. Made in a row from one
  render, both calls issue the request, and the second leaves the pending state as the
  first left it.
\<close>

theorem fetchMeaning_per_render:
  "(wordMeanings render (normalizeWord w) \<noteq> None \<longrightarrow>
      fetchMeaning render w prev = (prev, None)) \<and>
   (normalizeWord w1 = normalizeWord w2 \<and> normalizeWord w1 \<noteq> [] \<and>
    wordMeanings s (normalizeWord w1) = None \<longrightarrow>
      snd (fetchMeaning s w1 s) = Some (normalizeWord w1) \<and>
      fetchMeaning (fst (fetchMeaning s w1 s)) w2 (fst (fetchMeaning s w1 s)) =
        (fst (fetchMeaning s w1 s), None) \<and>
      fetchMeaning s w2 (fst (fetchMeaning s w1 s)) =
        (fst (fetchMeaning s w1 s), Some (normalizeWord w1)))"
  by (auto simp: fetchMeaning_def Let_def)

theorem fetchMeaning_per_render_witness:
  "normalizeWord (js ''Apple'') = js ''apple'' \<and> normalizeWord (js ''apple'') = js ''apple'' \<and>
   normalizeWord (js ''APPLE'') = js ''apple'' \<and>
   wordMeanings example_picker (js ''apple'') = None \<and>
   snd (fetchMeaning example_picker (js ''Apple'') example_picker) = Some (js ''apple'') \<and>
   snd (fetchMeaning (fst (fetchMeaning example_picker (js ''Apple'') example_picker)) (js ''apple'')
         (fst (fetchMeaning example_picker (js ''Apple'') example_picker))) = None \<and>
   wordMeanings (fetchSettled (fst (fetchMeaning example_picker (js ''Apple'') example_picker))
                   (js ''apple'') NotOk) (js ''apple'') \<noteq> None \<and>
   snd (fetchMeaning (fetchSettled (fst (fetchMeaning example_picker (js ''Apple'') example_picker))
                        (js ''apple'') NotOk) (js ''APPLE'') example_picker) = None"
proof -
  let ?s1 = "fst (fetchMeaning example_picker (js ''Apple'') example_picker)"
  let ?t = "fetchSettled ?s1 (js ''apple'') NotOk"
  have ne: "js ''apple'' \<noteq> []"
    by (simp add: js_Cons)
  have h1: "normalizeWord (js ''Apple'') = normalizeWord (js ''apple'') \<and>
      normalizeWord (js ''Apple'') \<noteq> [] \<and>
      wordMeanings example_picker (normalizeWord (js ''Apple'')) = None"
    using ne by (simp add: normalizeWord_Apple normalizeWord_apple example_picker_eq)
  have h2: "wordMeanings ?t (normalizeWord (js ''APPLE'')) \<noteq> None"
    by (simp add: normalizeWord_APPLE fetchSettled_def)
  from fetchMeaning_per_render
         [of ?t "js ''APPLE''" example_picker "js ''Apple''" "js ''apple''" example_picker] h1 h2
  show ?thesis
    by (simp add: normalizeWord_Apple normalizeWord_apple normalizeWord_APPLE)
qed

text \<open>
  Two calls in a row from one render, for \<open>Apple\<close> and \<open>apple\<close>: two requests.
\<close>

theorem fetchMeaning_twice_counterexample:
  "normalizeWord (js ''Apple'') = normalizeWord (js ''apple'') \<and>
   snd (fetchMeaning example_picker (js ''Apple'') example_picker) = Some (js ''apple'') \<and>
   snd (fetchMeaning example_picker (js ''apple'')
         (fst (fetchMeaning example_picker (js ''Apple'') example_picker))) = Some (js ''apple'')"
proof -
  have "js ''apple'' \<noteq> []"
    by (simp add: js_Cons)
  moreover have "wordMeanings example_picker (js ''apple'') = None"
    by (simp add: example_picker_eq)
  ultimately show ?thesis
    by (simp add: fetchMeaning_def Let_def normalizeWord_Apple normalizeWord_apple)
qed

text \<open>
  C6. Where every selected position is a position of a token,
  \<open>handleExportJson\<close> gives a document, and its \<open>words\<close> are the normalized texts
  of the selected positions that are in no phrase, sorted and without duplicates. A
  position in a phrase adds nothing to \<open>words\<close>, selected or not.
\<close>

theorem export_words:
  assumes "\<forall>i \<in> set (selectedIndices s). i < length (tokens s)"
  shows "handleExportJson s now =
           Inr \<lparr>exportedAt = now,
                words = sorted_list_of_set
                  ((\<lambda>i. normalizeWord (tokenText (tokens s ! i))) `
                     {i \<in> set (selectedIndices s). \<forall>p \<in> set (phrases s). i \<notin> set p}),
                phraseTexts = map (getPhraseText (tokens s)) (phrases s)\<rparr>"
proof -
  have "set (map (\<lambda>i. normalizeWord (tokenText (tokens s ! i)))
               (filter (\<lambda>i. getPhraseForIndex (phrases s) i = None) (selectedIndices s))) =
        (\<lambda>i. normalizeWord (tokenText (tokens s ! i))) `
           {i \<in> set (selectedIndices s). \<forall>p \<in> set (phrases s). i \<notin> set p}"
    by (simp add: getPhraseForIndex_None_iff)
  then show ?thesis
    unfolding handleExportJson_def fold_pushSingleWord [OF assms]
    by (simp add: sort_uniq del: set_map set_filter)
qed

theorem export_words_witness:
  "selectedIndices example_picker = [0, 2, 4] \<and> length (tokens example_picker) = 7 \<and>
   phrases example_picker = [[0, 2]] \<and>
   map_sum id words (handleExportJson example_picker (js ''2026-01-01T00:00:00.000Z'')) = Inr [js ''furious'']"
proof -
  have h: "\<forall>i \<in> set (selectedIndices example_picker). i < length (tokens example_picker)"
    by (simp add: example_picker_eq tokenize_fast_furious)
  have "{i \<in> set (selectedIndices example_picker). \<forall>p \<in> set (phrases example_picker). i \<notin> set p} = {4}"
    by (auto simp: example_picker_eq)
  with export_words [OF h, of "js ''2026-01-01T00:00:00.000Z''"] show ?thesis
    by (simp add: example_picker_eq tokenize_fast_furious normalizeWord_furious)
qed

text \<open>
  C7. Where the tokens carry their positions and the phrases are disjoint,
  \<open>findAdjacentPairs\<close> reports the pair \<open>(a, b)\<close> exactly when \<open>a\<close> and \<open>b\<close>
  are consecutive word tokens, both are selected, and no phrase has both. In
  \<open>fast and furious driving\<close> with \<open>fast\<close> and \<open>furious\<close> selected, no pair is
  reported.
\<close>

theorem findAdjacentPairs_characterisation:
  "(indexed (tokens s) \<and> disjoint_phrases (phrases s) \<longrightarrow>
      ((a, b) \<in> set (findAdjacentPairs s) \<longleftrightarrow>
         consecutive_words (tokens s) a b \<and>
         a \<in> set (selectedIndices s) \<and> b \<in> set (selectedIndices s) \<and>
         \<not> (\<exists>p \<in> set (phrases s). a \<in> set p \<and> b \<in> set p))) \<and>
   map tokenText (tokens fast_furious) =
     map js [''fast'', '' '', ''and'', '' '', ''furious'', '' '', ''driving''] \<and>
   selectedIndices fast_furious = [0, 4] \<and>
   findAdjacentPairs fast_furious = []"
proof (intro conjI impI)
  assume "indexed (tokens s) \<and> disjoint_phrases (phrases s)"
  then show "(a, b) \<in> set (findAdjacentPairs s) \<longleftrightarrow>
         consecutive_words (tokens s) a b \<and>
         a \<in> set (selectedIndices s) \<and> b \<in> set (selectedIndices s) \<and>
         \<not> (\<exists>p \<in> set (phrases s). a \<in> set p \<and> b \<in> set p)"
    unfolding findAdjacentPairs_iff
    by (simp add: consecutive_words_iff same_phrase_iff)
next
  have sp: "startPicking (js ''fast and furious driving'') =
      \<lparr>articleText = js ''fast and furious driving'', mode = Picking,
       tokens = tokenize (js ''fast and furious driving''),
       selectedIndices = [], phrases = [], hoveredConnector = None, wordMeanings = Map.empty\<rparr>"
    by (simp add: startPicking_def handleStartPicking_def initial_def trim_empty_iff js_Cons isSpace_def)
  have ff: "fast_furious =
      \<lparr>articleText = js ''fast and furious driving'', mode = Picking,
       tokens = tokenize (js ''fast and furious driving''),
       selectedIndices = [0, 4], phrases = [], hoveredConnector = None, wordMeanings = Map.empty\<rparr>"
    by (simp add: fast_furious_def sp handleWordClick_def tokenize_fast_furious
        getPhraseForIndex_def set_add_def)
  show "map tokenText (tokens fast_furious) =
     map js [''fast'', '' '', ''and'', '' '', ''furious'', '' '', ''driving'']"
    by (simp add: ff tokenize_fast_furious)
  show "selectedIndices fast_furious = [0, 4]"
    by (simp add: ff)
  show "findAdjacentPairs fast_furious = []"
    by (simp add: ff tokenize_fast_furious findAdjacentPairs_def upt_rec)
qed

theorem findAdjacentPairs_characterisation_witness:
  "indexed (tokens example_picker) \<and> disjoint_phrases (phrases example_picker) \<and>
   (2, 4) \<in> set (findAdjacentPairs example_picker) \<and>
   (0, 2) \<notin> set (findAdjacentPairs example_picker)"
proof -
  have h: "indexed (tokens example_picker) \<and> disjoint_phrases (phrases example_picker)"
    by (simp add: example_picker_eq tokenize_fast_furious indexed_def upt_rec)
  have "consecutive_words (tokens example_picker) 2 4 \<and>
      2 \<in> set (selectedIndices example_picker) \<and> 4 \<in> set (selectedIndices example_picker) \<and>
      \<not> (\<exists>p \<in> set (phrases example_picker). 2 \<in> set p \<and> 4 \<in> set p)"
  proof -
    have "{2<..<4} = {3::nat}" by auto
    then show ?thesis
      by (simp add: example_picker_eq tokenize_fast_furious consecutive_words_def)
  qed
  moreover have "\<exists>p \<in> set (phrases example_picker). 0 \<in> set p \<and> 2 \<in> set p"
    by (simp add: example_picker_eq)
  ultimately show ?thesis
    using h findAdjacentPairs_characterisation [of example_picker 2 4]
      findAdjacentPairs_characterisation [of example_picker 0 2]
    by blast
qed

text \<open>
  C8. Where the article text is empty or consists of white space,
  \<open>handleStartPicking\<close> shows the alert and leaves the state as it is: nothing is
  tokenized, and the mode does not change.
\<close>

theorem blank_article_rejected:
  assumes "\<forall>c \<in> set (articleText s). isSpace c"
  shows "handleStartPicking s = (s, Some (js ''Please paste an article first!''))"
  using assms by (simp add: handleStartPicking_def trim_empty_iff)

theorem blank_article_rejected_witness:
  "articleText (initial\<lparr>articleText := js '' ''\<rparr>) = [0x20] \<and> isSpace 0x20 \<and>
   handleStartPicking (initial\<lparr>articleText := js '' ''\<rparr>) =
     (initial\<lparr>articleText := js '' ''\<rparr>, Some (js ''Please paste an article first!'')) \<and>
   mode (fst (handleStartPicking (initial\<lparr>articleText := js '' ''\<rparr>))) = Input"
proof -
  have sp: "isSpace 0x20"
    by (simp add: isSpace_def)
  then have h: "\<forall>c \<in> set (articleText (initial\<lparr>articleText := js '' ''\<rparr>)). isSpace c"
    by (simp add: js_Cons js_Nil)
  from blank_article_rejected [OF h] sp show ?thesis
    by (simp add: initial_def js_Cons js_Nil)
qed

text \<open>
  C9. In every state reached from the state after Start Picking by clicks on
  words, on connectors and on Reset, every member of every phrase is selected.
\<close>

theorem phrase_members_selected:
  "\<forall>p \<in> set (phrases (foldl ui_step (startPicking str) evs)).
     set p \<subseteq> set (selectedIndices (foldl ui_step (startPicking str) evs))"
  using wellformed_ui_run [OF wellformed_startPicking, of str evs]
  by (simp add: wellformed_def)

theorem phrase_members_selected_witness:
  "phrases (foldl ui_step (startPicking (js ''fast and furious driving''))
       [WordClick 0, WordClick 2, WordClick 4, ConnectorClick 1]) = [[0, 2]] \<and>
   set [0, 2] \<subseteq> set (selectedIndices (foldl ui_step (startPicking (js ''fast and furious driving''))
       [WordClick 0, WordClick 2, WordClick 4, ConnectorClick 1]))"
proof -
  have ps: "phrases (foldl ui_step (startPicking (js ''fast and furious driving''))
       [WordClick 0, WordClick 2, WordClick 4, ConnectorClick 1]) = [[0, 2]]"
    using example_picker_eq by (simp add: example_picker_def)
  then have "[0, 2] \<in> set (phrases (foldl ui_step (startPicking (js ''fast and furious driving''))
       [WordClick 0, WordClick 2, WordClick 4, ConnectorClick 1]))"
    by simp
  with phrase_members_selected [of "js ''fast and furious driving''"
      "[WordClick 0, WordClick 2, WordClick 4, ConnectorClick 1]"] ps
  show ?thesis
    by blast
qed

text \<open>
  C10. A call of \<open>fetchMeaning\<close> with a word whose normalized form is empty
  changes nothing and issues no request, from whatever render it is made.
\<close>

theorem fetchMeaning_empty_key:
  assumes "normalizeWord w = []"
  shows "fetchMeaning render w prev = (prev, None)"
  using assms by (simp add: fetchMeaning_def)

theorem fetchMeaning_empty_key_witness:
  "normalizeWord (js ''42!'') = [] \<and>
   fetchMeaning example_picker (js ''42!'') example_picker = (example_picker, None)"
  using fetchMeaning_empty_key [OF normalizeWord_42, of example_picker example_picker]
    normalizeWord_42
  by simp

end
